theory Spec2Isabelle
  imports Main "HOL-Library.Word"
begin

unbundle bit_operations_syntax

section \<open>Data model\<close>

text \<open>
  A \<^verbatim>\<open>Uint8Array\<close> is a list of 8-bit words; the 32-bit accumulators of the digest are
  32-bit words, on which \<open>+\<close> wraps as \<^verbatim>\<open>(x + y) >>> 0\<close> does. Array lengths, offsets and
  the numbers handed to the bitwise operators are JavaScript numbers holding integers:
  they are modelled as \<open>nat\<close> or \<open>int\<close>, and the conversion to 32 bits that \<^verbatim>\<open>&\<close>, \<^verbatim>\<open>>>\<close>
  and \<^verbatim>\<open>setUint32\<close> perform is written out. A string is represented by the bytes that
  \<^verbatim>\<open>new TextEncoder().encode\<close> returns for it (its UTF-8 encoding); the empty string is
  the only one whose encoding is empty.
\<close>

type_synonym byte = "8 word"
type_synonym u32 = "32 word"

datatype js_error = RangeError

definition bindE :: "js_error + 'a \<Rightarrow> ('a \<Rightarrow> js_error + 'b) \<Rightarrow> js_error + 'b" where
  "bindE m f = (case m of Inl e \<Rightarrow> Inl e | Inr v \<Rightarrow> f v)"

text \<open>The abstract operations \<^verbatim>\<open>ToInt32\<close> and \<^verbatim>\<open>ToUint32\<close> of the language, on integers.\<close>

definition ToInt32 :: "int \<Rightarrow> int" where
  "ToInt32 x = (x + 2 ^ 31) mod 2 ^ 32 - 2 ^ 31"

definition ToUint32 :: "int \<Rightarrow> int" where
  "ToUint32 x = x mod 2 ^ 32"

text \<open>\<^verbatim>\<open>new Uint8Array(n)\<close>: zero-filled; a negative length raises \<^verbatim>\<open>RangeError\<close>.\<close>

definition new_Uint8Array :: "int \<Rightarrow> js_error + byte list" where
  "new_Uint8Array n = (if n < 0 then Inl RangeError else Inr (replicate (nat n) 0))"

text \<open>\<^verbatim>\<open>target.set(source, offset)\<close>: raises \<^verbatim>\<open>RangeError\<close> when the source does not fit.\<close>

definition Uint8Array_set :: "byte list \<Rightarrow> byte list \<Rightarrow> nat \<Rightarrow> js_error + byte list" where
  "Uint8Array_set target source offset =
     (if offset + length source > length target then Inl RangeError
      else Inr (take offset target @ source @ drop (offset + length source) target))"

text \<open>\<^verbatim>\<open>a[k] = v\<close> on a typed array: a write outside the array is ignored.\<close>

definition store :: "byte list \<Rightarrow> nat \<Rightarrow> byte \<Rightarrow> byte list" where
  "store a k v = a[k := v]"

text \<open>\<^verbatim>\<open>DataView.setUint32(offset, value, true)\<close>: the value is taken modulo \<open>2^32\<close> and
  written low byte first; an offset outside the buffer raises \<^verbatim>\<open>RangeError\<close>.\<close>

definition setUint32 :: "byte list \<Rightarrow> int \<Rightarrow> int \<Rightarrow> js_error + byte list" where
  "setUint32 buf offset v =
     (if offset < 0 \<or> nat offset + 4 > length buf then Inl RangeError
      else let w = ToUint32 v; p = nat offset in
        Inr (buf[p := word_of_int w,
                 p + 1 := word_of_int (w div 2 ^ 8),
                 p + 2 := word_of_int (w div 2 ^ 16),
                 p + 3 := word_of_int (w div 2 ^ 24)]))"

section \<open>The digest: \<^verbatim>\<open>md5\<close>\<close>

definition S :: "nat list" where
  "S = [7, 12, 17, 22, 7, 12, 17, 22, 7, 12, 17, 22, 7, 12, 17, 22,
        5, 9, 14, 20, 5, 9, 14, 20, 5, 9, 14, 20, 5, 9, 14, 20,
        4, 11, 16, 23, 4, 11, 16, 23, 4, 11, 16, 23, 4, 11, 16, 23,
        6, 10, 15, 21, 6, 10, 15, 21, 6, 10, 15, 21, 6, 10, 15, 21]"

definition K :: "u32 list" where
  "K = [0xd76aa478, 0xe8c7b756, 0x242070db, 0xc1bdceee,
        0xf57c0faf, 0x4787c62a, 0xa8304613, 0xfd469501,
        0x698098d8, 0x8b44f7af, 0xffff5bb1, 0x895cd7be,
        0x6b901122, 0xfd987193, 0xa679438e, 0x49b40821,
        0xf61e2562, 0xc040b340, 0x265e5a51, 0xe9b6c7aa,
        0xd62f105d, 0x02441453, 0xd8a1e681, 0xe7d3fbc8,
        0x21e1cde6, 0xc33707d6, 0xf4d50d87, 0x455a14ed,
        0xa9e3e905, 0xfcefa3f8, 0x676f02d9, 0x8d2a4c8a,
        0xfffa3942, 0x8771f681, 0x6d9d6122, 0xfde5380c,
        0xa4beea44, 0x4bdecfa9, 0xf6bb4b60, 0xbebfbc70,
        0x289b7ec6, 0xeaa127fa, 0xd4ef3085, 0x04881d05,
        0xd9d4d039, 0xe6db99e5, 0x1fa27cf8, 0xc4ac5665,
        0xf4292244, 0x432aff97, 0xab9423a7, 0xfc93a039,
        0x655b59c3, 0x8f0ccc92, 0xffeff47d, 0x85845dd1,
        0x6fa87e4f, 0xfe2ce6e0, 0xa3014314, 0x4e0811a1,
        0xf7537e82, 0xbd3af235, 0x2ad7d2bb, 0xeb86d391]"

text \<open>Pre-processing: the padded message, or the error raised while building it.\<close>

definition md5_preprocess :: "byte list \<Rightarrow> js_error + byte list" where
  "md5_preprocess bytes =
     (let msgLen = int (length bytes);
          msgBitLen = msgLen * 8;
          msgLenPadded = ToInt32 (msgLen + 9 + 63) AND NOT 63
      in bindE (new_Uint8Array msgLenPadded) (\<lambda>msg.
         bindE (Uint8Array_set msg bytes 0) (\<lambda>msg.
         bindE (setUint32 (store msg (nat msgLen) 0x80) (msgLenPadded - 8) msgBitLen) (\<lambda>msg.
         setUint32 msg (msgLenPadded - 4) 0))))"

text \<open>\<^verbatim>\<open>new Uint32Array(msg.buffer, offset, 16)[g]\<close>: four bytes, low byte first (the byte
  order of the little-endian hosts the library runs on).\<close>

definition chunk_word :: "byte list \<Rightarrow> nat \<Rightarrow> nat \<Rightarrow> u32" where
  "chunk_word msg offset g =
     (let p = offset + 4 * g in
        ucast (msg ! p) OR push_bit 8 (ucast (msg ! (p + 1)))
          OR push_bit 16 (ucast (msg ! (p + 2))) OR push_bit 24 (ucast (msg ! (p + 3))))"

text \<open>One of the 64 rounds on the working values \<open>(a, b, c, d)\<close>.\<close>

definition md5_round :: "byte list \<Rightarrow> nat \<Rightarrow> nat \<Rightarrow> u32 \<times> u32 \<times> u32 \<times> u32 \<Rightarrow> u32 \<times> u32 \<times> u32 \<times> u32" where
  "md5_round msg offset i = (\<lambda>(a, b, c, d).
     let (f, g) =
           (if i < 16 then ((b AND c) OR ((NOT b) AND d), i)
            else if i < 32 then ((d AND b) OR ((NOT d) AND c), (5 * i + 1) mod 16)
            else if i < 48 then (b XOR c XOR d, (3 * i + 5) mod 16)
            else (c XOR (b OR (NOT d)), (7 * i) mod 16));
         f = f + a + K ! i + chunk_word msg offset g
     in (d, b + (push_bit (S ! i) f OR drop_bit (32 - S ! i) f), b, c))"

definition md5_chunk :: "byte list \<Rightarrow> nat \<Rightarrow> u32 \<times> u32 \<times> u32 \<times> u32 \<Rightarrow> u32 \<times> u32 \<times> u32 \<times> u32" where
  "md5_chunk msg offset = (\<lambda>(a0, b0, c0, d0).
     let (a, b, c, d) = fold (md5_round msg offset) [0..<64] (a0, b0, c0, d0)
     in (a0 + a, b0 + b, c0 + c, d0 + d))"

function md5_loop :: "byte list \<Rightarrow> nat \<Rightarrow> u32 \<times> u32 \<times> u32 \<times> u32 \<Rightarrow> u32 \<times> u32 \<times> u32 \<times> u32" where
  "md5_loop msg offset h =
     (if offset < length msg then md5_loop msg (offset + 64) (md5_chunk msg offset h) else h)"
  by pat_completeness auto
termination
  by (relation "measure (\<lambda>(msg, offset, h). length msg - offset)") auto

declare md5_loop.simps [simp del]

text \<open>The result array: the four accumulators, each written low byte first by
  \<^verbatim>\<open>view.setUint32(_, _, true)\<close> at the offsets 0, 4, 8 and 12 of a 16-byte array.\<close>

definition u32_le :: "u32 \<Rightarrow> byte list" where
  "u32_le w = [ucast w, ucast (drop_bit 8 w), ucast (drop_bit 16 w), ucast (drop_bit 24 w)]"

definition md5_result :: "u32 \<times> u32 \<times> u32 \<times> u32 \<Rightarrow> byte list" where
  "md5_result = (\<lambda>(a0, b0, c0, d0). u32_le a0 @ u32_le b0 @ u32_le c0 @ u32_le d0)"

text \<open>\<^verbatim>\<open>md5(data)\<close>, on the bytes of \<^verbatim>\<open>data\<close> (for a string, its encoding).\<close>

definition md5 :: "byte list \<Rightarrow> js_error + byte list" where
  "md5 bytes =
     bindE (md5_preprocess bytes) (\<lambda>msg.
       Inr (md5_result (md5_loop msg 0 (0x67452301, 0xefcdab89, 0x98badcfe, 0x10325476))))"

section \<open>The stream cipher: class \<^verbatim>\<open>RC4\<close>\<close>

record rc4 =
  rc4_s :: "byte list"
  rc4_i :: nat
  rc4_j :: nat

text \<open>\<^verbatim>\<open>[s[i], s[j]] = [s[j], s[i]]\<close>: both reads happen before the two writes.\<close>

definition swap :: "byte list \<Rightarrow> nat \<Rightarrow> nat \<Rightarrow> byte list" where
  "swap s i j = s[i := s ! j, j := s ! i]"

text \<open>\<^verbatim>\<open>key[i % key.length]\<close>: for an empty key the index is \<^verbatim>\<open>NaN\<close> and the read
  gives \<^verbatim>\<open>undefined\<close>, modelled as \<open>None\<close>.\<close>

definition key_byte :: "byte list \<Rightarrow> nat \<Rightarrow> byte option" where
  "key_byte key i = (if length key = 0 then None else Some (key ! (i mod length key)))"

text \<open>One step of the key schedule, on the table and \<open>j\<close>. With \<^verbatim>\<open>undefined\<close> the sum is
  \<^verbatim>\<open>NaN\<close>, and \<^verbatim>\<open>NaN & 0xFF\<close> is \<open>0\<close>.\<close>

definition ksa_step :: "byte list \<Rightarrow> nat \<Rightarrow> byte list \<times> nat \<Rightarrow> byte list \<times> nat" where
  "ksa_step key i = (\<lambda>(s, j).
     let j = (case key_byte key i of
                None \<Rightarrow> 0
              | Some k \<Rightarrow> (j + unat (s ! i) + unat k) AND 0xFF)
     in (swap s i j, j))"

definition RC4 :: "byte list \<Rightarrow> rc4" where
  "RC4 key =
     (let s = map of_nat [0..<256];
          (s, j) = fold (ksa_step key) [0..<256] (s, 0)
      in \<lparr>rc4_s = s, rc4_i = 0, rc4_j = 0\<rparr>)"

text \<open>One pass of the loop body of \<^verbatim>\<open>process\<close>: the new state and the keystream byte
  \<^verbatim>\<open>this.s[t]\<close>.\<close>

definition prga_step :: "rc4 \<Rightarrow> rc4 \<times> byte" where
  "prga_step st =
     (let i = (rc4_i st + 1) AND 0xFF;
          j = (rc4_j st + unat (rc4_s st ! i)) AND 0xFF;
          s = swap (rc4_s st) i j;
          t = (unat (s ! i) + unat (s ! j)) AND 0xFF
      in (\<lparr>rc4_s = s, rc4_i = i, rc4_j = j\<rparr>, s ! t))"

text \<open>\<^verbatim>\<open>process(data)\<close>: the instance after the call and the returned array.\<close>

fun process :: "rc4 \<Rightarrow> byte list \<Rightarrow> rc4 \<times> byte list" where
  "process st [] = (st, [])"
| "process st (x # xs) =
     (let (st1, k) = prga_step st;
          (st2, ys) = process st1 xs
      in (st2, (x XOR k) # ys))"

section \<open>Key derivation\<close>

definition PADDING :: "byte list" where
  "PADDING = [0x28, 0xBF, 0x4E, 0x5E, 0x4E, 0x75, 0x8A, 0x41,
              0x64, 0x00, 0x4E, 0x56, 0xFF, 0xFA, 0x01, 0x08,
              0x2E, 0x2E, 0x00, 0xB6, 0xD0, 0x68, 0x3E, 0x80,
              0x2F, 0x0C, 0xA9, 0xFE, 0x64, 0x53, 0x69, 0x7A]"

text \<open>\<^verbatim>\<open>a.slice(start, end)\<close> for non-negative bounds.\<close>

definition slice :: "byte list \<Rightarrow> nat \<Rightarrow> nat \<Rightarrow> byte list" where
  "slice a start end = take (end - start) (drop start a)"

text \<open>\<^verbatim>\<open>padPassword\<close>, on the encoded password \<^verbatim>\<open>pwdBytes\<close>.\<close>

definition padPassword :: "byte list \<Rightarrow> js_error + byte list" where
  "padPassword pwdBytes =
     bindE (new_Uint8Array 32) (\<lambda>padded.
       if length pwdBytes \<ge> 32 then Uint8Array_set padded (slice pwdBytes 0 32) 0
       else bindE (Uint8Array_set padded pwdBytes 0) (\<lambda>padded.
              Uint8Array_set padded (slice PADDING 0 (32 - length pwdBytes)) (length pwdBytes)))"

text \<open>\<^verbatim>\<open>(n >> k) & 0xFF\<close> on a number: \<^verbatim>\<open>ToInt32\<close>, arithmetic shift, mask; the result is
  stored in a byte.\<close>

definition shr_byte :: "int \<Rightarrow> nat \<Rightarrow> byte" where
  "shr_byte n k = word_of_int (drop_bit k (ToInt32 n) AND 0xFF)"

text \<open>The loop \<^verbatim>\<open>for (i < n) hash = md5(hash.slice(0, 16))\<close>.\<close>

fun rehash_slice :: "nat \<Rightarrow> byte list \<Rightarrow> js_error + byte list" where
  "rehash_slice 0 hash = Inr hash"
| "rehash_slice (Suc n) hash = bindE (md5 (slice hash 0 16)) (rehash_slice n)"

definition computeEncryptionKey :: "byte list \<Rightarrow> byte list \<Rightarrow> int \<Rightarrow> byte list \<Rightarrow> js_error + byte list" where
  "computeEncryptionKey userPassword ownerKey permissions fileId =
     bindE (padPassword userPassword) (\<lambda>paddedPwd.
     bindE (new_Uint8Array (int (length paddedPwd + length ownerKey + 4 + length fileId))) (\<lambda>hashInput.
     let offset = 0 in
     bindE (Uint8Array_set hashInput paddedPwd offset) (\<lambda>hashInput.
     let offset = offset + length paddedPwd in
     bindE (Uint8Array_set hashInput ownerKey offset) (\<lambda>hashInput.
     let offset = offset + length ownerKey;
         hashInput = store hashInput offset (shr_byte permissions 0);
         hashInput = store hashInput (offset + 1) (shr_byte permissions 8);
         hashInput = store hashInput (offset + 2) (shr_byte permissions 16);
         hashInput = store hashInput (offset + 3) (shr_byte permissions 24);
         offset = offset + 4 in
     bindE (Uint8Array_set hashInput fileId offset) (\<lambda>hashInput.
     bindE (md5 hashInput) (\<lambda>hash.
     bindE (rehash_slice 50 hash) (\<lambda>hash.
     Inr (slice hash 0 16))))))))"

text \<open>The loop \<^verbatim>\<open>for (i < n) hash = md5(hash)\<close>.\<close>

fun rehash :: "nat \<Rightarrow> byte list \<Rightarrow> js_error + byte list" where
  "rehash 0 hash = Inr hash"
| "rehash (Suc n) hash = bindE (md5 hash) (rehash n)"

text \<open>The inner loop \<^verbatim>\<open>key[j] = base[j] ^ i\<close> over a fresh array of the base's length.\<close>

definition xor_loop :: "byte list \<Rightarrow> nat \<Rightarrow> byte list" where
  "xor_loop base i =
     fold (\<lambda>j key. store key j (base ! j XOR of_nat i)) [0..<length base]
       (replicate (length base) 0)"

text \<open>\<^verbatim>\<open>computeOwnerKey\<close>: the owner password is \<open>None\<close> for \<^verbatim>\<open>null\<close> or \<^verbatim>\<open>undefined\<close>;
  \<^verbatim>\<open>ownerPassword || userPassword\<close> also takes the user password for the empty string.\<close>

definition computeOwnerKey :: "byte list option \<Rightarrow> byte list \<Rightarrow> js_error + byte list" where
  "computeOwnerKey ownerPassword userPassword =
     bindE (padPassword (case ownerPassword of
                           None \<Rightarrow> userPassword
                         | Some p \<Rightarrow> if p = [] then userPassword else p)) (\<lambda>paddedOwner.
     bindE (md5 paddedOwner) (\<lambda>hash.
     bindE (rehash 50 hash) (\<lambda>hash.
     bindE (padPassword userPassword) (\<lambda>paddedUser.
     Inr (fold (\<lambda>i result. snd (process (RC4 (slice (xor_loop hash i) 0 16)) result))
            [0..<20] paddedUser)))))"

definition computeUserKey :: "byte list \<Rightarrow> byte list \<Rightarrow> js_error + byte list" where
  "computeUserKey encryptionKey fileId =
     bindE (new_Uint8Array (int (length PADDING + length fileId))) (\<lambda>hashInput.
     bindE (Uint8Array_set hashInput PADDING 0) (\<lambda>hashInput.
     bindE (Uint8Array_set hashInput fileId (length PADDING)) (\<lambda>hashInput.
     bindE (md5 hashInput) (\<lambda>hash.
     let result = snd (process (RC4 encryptionKey) hash);
         result = fold (\<lambda>i result. snd (process (RC4 (xor_loop encryptionKey i)) result))
                    [1..<20] result in
     bindE (new_Uint8Array 32) (\<lambda>finalResult.
     bindE (Uint8Array_set finalResult result 0) (\<lambda>finalResult.
     bindE (new_Uint8Array 16) (\<lambda>zeros.
     Uint8Array_set finalResult zeros 16)))))))"

definition encryptObject :: "byte list \<Rightarrow> int \<Rightarrow> int \<Rightarrow> byte list \<Rightarrow> js_error + byte list" where
  "encryptObject data objectNum generationNum encryptionKey =
     bindE (new_Uint8Array (int (length encryptionKey + 5))) (\<lambda>keyInput.
     bindE (Uint8Array_set keyInput encryptionKey 0) (\<lambda>keyInput.
     let keyInput = store keyInput (length encryptionKey) (shr_byte objectNum 0);
         keyInput = store keyInput (length encryptionKey + 1) (shr_byte objectNum 8);
         keyInput = store keyInput (length encryptionKey + 2) (shr_byte objectNum 16);
         keyInput = store keyInput (length encryptionKey + 3) (shr_byte generationNum 0);
         keyInput = store keyInput (length encryptionKey + 4) (shr_byte generationNum 8) in
     bindE (md5 keyInput) (\<lambda>objectKey.
     Inr (snd (process (RC4 (slice objectKey 0 (min (length encryptionKey + 5) 16))) data)))))"

section \<open>The operations as the specification words them\<close>

text \<open>The digest as a function of its input: the array \<^verbatim>\<open>md5\<close> returns.\<close>

definition digest :: "byte list \<Rightarrow> byte list" where
  "digest bytes = (case md5 bytes of Inr h \<Rightarrow> h | Inl e \<Rightarrow> [])"

text \<open>\<open>pad p\<close>: the first 32 bytes of \<open>p\<close>, or \<open>p\<close> followed by the start of the padding
  constant.\<close>

definition pad :: "byte list \<Rightarrow> byte list" where
  "pad p = (if length p \<ge> 32 then take 32 p else p @ take (32 - length p) PADDING)"

text \<open>The \<open>n\<close> low bytes of an integer, low byte first.\<close>

definition le_bytes :: "nat \<Rightarrow> int \<Rightarrow> byte list" where
  "le_bytes n v = map (\<lambda>k. word_of_int (v div 256 ^ k)) [0..<n]"

text \<open>A fresh cipher instance for the key, applied to the data.\<close>

definition stream_cipher :: "byte list \<Rightarrow> byte list \<Rightarrow> byte list" where
  "stream_cipher key data = snd (process (RC4 key) data)"

definition xorKey :: "byte list \<Rightarrow> nat \<Rightarrow> byte list" where
  "xorKey base k = map (\<lambda>b. b XOR of_nat k) base"

definition deriveFileKey :: "byte list \<Rightarrow> byte list \<Rightarrow> int \<Rightarrow> byte list \<Rightarrow> byte list" where
  "deriveFileKey userPassword ownerValue permissions fileId =
     take 16 (((\<lambda>w. digest (take 16 w)) ^^ 50)
       (digest (pad userPassword @ ownerValue @ le_bytes 4 permissions @ fileId)))"

definition effective_password :: "byte list option \<Rightarrow> byte list \<Rightarrow> byte list" where
  "effective_password ownerPassword userPassword =
     (case ownerPassword of
        None \<Rightarrow> userPassword
      | Some p \<Rightarrow> if p \<noteq> [] then p else userPassword)"

definition deriveOwnerValue :: "byte list option \<Rightarrow> byte list \<Rightarrow> byte list" where
  "deriveOwnerValue ownerPassword userPassword =
     (let base = (digest ^^ 50) (digest (pad (effective_password ownerPassword userPassword)))
      in foldl (\<lambda>payload k. stream_cipher (xorKey base k) payload) (pad userPassword) [0..<20])"

definition deriveUserValue :: "byte list \<Rightarrow> byte list \<Rightarrow> byte list" where
  "deriveUserValue fileKey fileId =
     foldl (\<lambda>payload k. stream_cipher (xorKey fileKey k) payload)
       (stream_cipher fileKey (digest (PADDING @ fileId))) [1..<20]
     @ replicate 16 0"

definition objectKey :: "byte list \<Rightarrow> int \<Rightarrow> int \<Rightarrow> byte list" where
  "objectKey fileKey objectNumber generationNumber =
     take (min (length fileKey + 5) 16)
       (digest (fileKey @ le_bytes 3 objectNumber @ le_bytes 2 generationNumber))"

definition encryptPayload :: "byte list \<Rightarrow> byte list \<Rightarrow> int \<Rightarrow> int \<Rightarrow> byte list" where
  "encryptPayload bytes fileKey objectNumber generationNumber =
     stream_cipher (objectKey fileKey objectNumber generationNumber) bytes"

section \<open>Auxiliary notions for the proofs\<close>

text \<open>The length of the padded message for an input of \<open>n\<close> bytes, as long as the
  32-bit arithmetic of the pre-processing does not overflow.\<close>

definition padded_length :: "nat \<Rightarrow> nat" where
  "padded_length n = (n + 72) div 64 * 64"

text \<open>The identity on 32-bit words, used to bring a numeral into the range of the type
  while a digest is evaluated.\<close>

definition norm32 :: "u32 \<Rightarrow> u32" where
  "norm32 w = w"

text \<open>The table after steps \<open>0\<close> to \<open>n\<close> of a key schedule in which \<open>j\<close> is \<open>0\<close> at every
  step, and a 256-byte key for which that happens.\<close>

definition zero_j_table :: "nat \<Rightarrow> byte list" where
  "zero_j_table n = of_nat n # map of_nat [0..<n] @ map of_nat [Suc n..<256]"

definition zero_j_key :: "byte list" where
  "zero_j_key = map (\<lambda>i. of_nat (256 - i)) [0..<256]"

text \<open>The padded messages of the three test inputs of the digest, and the 56-byte test
  input.\<close>

definition msg_empty :: "byte list" where
  "msg_empty =
     [0x80, 0x00, 0x00, 0x00, 0x00, 0x00, 0x00, 0x00, 0x00, 0x00, 0x00, 0x00, 0x00, 0x00, 0x00,
      0x00, 0x00, 0x00, 0x00, 0x00, 0x00, 0x00, 0x00, 0x00, 0x00, 0x00, 0x00, 0x00, 0x00,
      0x00, 0x00, 0x00, 0x00, 0x00, 0x00, 0x00, 0x00, 0x00, 0x00, 0x00, 0x00, 0x00, 0x00,
      0x00, 0x00, 0x00, 0x00, 0x00, 0x00, 0x00, 0x00, 0x00, 0x00, 0x00, 0x00, 0x00, 0x00,
      0x00, 0x00, 0x00, 0x00, 0x00, 0x00, 0x00]"

definition msg_abc :: "byte list" where
  "msg_abc =
     [0x61, 0x62, 0x63, 0x80, 0x00, 0x00, 0x00, 0x00, 0x00, 0x00, 0x00, 0x00, 0x00, 0x00, 0x00,
      0x00, 0x00, 0x00, 0x00, 0x00, 0x00, 0x00, 0x00, 0x00, 0x00, 0x00, 0x00, 0x00, 0x00,
      0x00, 0x00, 0x00, 0x00, 0x00, 0x00, 0x00, 0x00, 0x00, 0x00, 0x00, 0x00, 0x00, 0x00,
      0x00, 0x00, 0x00, 0x00, 0x00, 0x00, 0x00, 0x00, 0x00, 0x00, 0x00, 0x00, 0x00, 0x18,
      0x00, 0x00, 0x00, 0x00, 0x00, 0x00, 0x00]"

definition msg_56 :: "byte list" where
  "msg_56 =
     [0x61, 0x62, 0x63, 0x64, 0x62, 0x63, 0x64, 0x65, 0x63, 0x64, 0x65, 0x66, 0x64, 0x65, 0x66,
      0x67, 0x65, 0x66, 0x67, 0x68, 0x66, 0x67, 0x68, 0x69, 0x67, 0x68, 0x69, 0x6a, 0x68,
      0x69, 0x6a, 0x6b, 0x69, 0x6a, 0x6b, 0x6c, 0x6a, 0x6b, 0x6c, 0x6d, 0x6b, 0x6c, 0x6d,
      0x6e, 0x6c, 0x6d, 0x6e, 0x6f, 0x6d, 0x6e, 0x6f, 0x70, 0x6e, 0x6f, 0x70, 0x71, 0x80,
      0x00, 0x00, 0x00, 0x00, 0x00, 0x00, 0x00, 0x00, 0x00, 0x00, 0x00, 0x00, 0x00, 0x00,
      0x00, 0x00, 0x00, 0x00, 0x00, 0x00, 0x00, 0x00, 0x00, 0x00, 0x00, 0x00, 0x00, 0x00,
      0x00, 0x00, 0x00, 0x00, 0x00, 0x00, 0x00, 0x00, 0x00, 0x00, 0x00, 0x00, 0x00, 0x00,
      0x00, 0x00, 0x00, 0x00, 0x00, 0x00, 0x00, 0x00, 0x00, 0x00, 0x00, 0x00, 0x00, 0x00,
      0x00, 0x00, 0x00, 0x00, 0x00, 0x00, 0x00, 0xc0, 0x01, 0x00, 0x00, 0x00, 0x00, 0x00,
      0x00]"

definition input_56 :: "byte list" where
  "input_56 =
     [0x61, 0x62, 0x63, 0x64, 0x62, 0x63, 0x64, 0x65, 0x63, 0x64, 0x65, 0x66, 0x64, 0x65, 0x66,
      0x67, 0x65, 0x66, 0x67, 0x68, 0x66, 0x67, 0x68, 0x69, 0x67, 0x68, 0x69, 0x6a, 0x68,
      0x69, 0x6a, 0x6b, 0x69, 0x6a, 0x6b, 0x6c, 0x6a, 0x6b, 0x6c, 0x6d, 0x6b, 0x6c, 0x6d,
      0x6e, 0x6c, 0x6d, 0x6e, 0x6f, 0x6d, 0x6e, 0x6f, 0x70, 0x6e, 0x6f, 0x70, 0x71]"

section \<open>Arrays and 32-bit conversions\<close>

lemma ToInt32_small: "- (2 ^ 31) \<le> x \<Longrightarrow> x < 2 ^ 31 \<Longrightarrow> ToInt32 x = x"
  by (simp add: ToInt32_def)

lemma and_not_mask_int: "(x::int) AND NOT (mask n) = push_bit n (drop_bit n x)"
  by (rule bit_eqI) (auto simp add: bit_simps)

lemma and_not_63: "(x::int) AND NOT 63 = x div 64 * 64"
proof -
  have "(63::int) = mask 6" by (simp add: mask_eq_exp_minus_1)
  then show ?thesis
    by (simp only: and_not_mask_int) (simp add: push_bit_eq_mult drop_bit_eq_div)
qed

lemma and_minus_64: "(x::int) AND - 64 = x div 64 * 64"
  using and_not_63[of x] by simp

lemma padded_length_bounds:
  "n + 9 \<le> padded_length n" "padded_length n \<le> n + 72" "padded_length n mod 64 = 0"
proof -
  have m: "(n + 72) mod 64 < 64" by simp
  have d: "(n + 72) div 64 * 64 + (n + 72) mod 64 = n + 72" by (rule div_mult_mod_eq)
  show "n + 9 \<le> padded_length n" "padded_length n \<le> n + 72"
    using m d unfolding padded_length_def by linarith+
  show "padded_length n mod 64 = 0" by (simp add: padded_length_def)
qed

lemma msgLenPadded_small:
  assumes "int n + 72 < 2 ^ 31"
  shows "ToInt32 (int n + 9 + 63) AND NOT 63 = int (padded_length n)"
proof -
  have "ToInt32 (int n + 9 + 63) = int n + 72" using assms by (simp add: ToInt32_small)
  then show ?thesis by (simp add: and_minus_64 padded_length_def zdiv_int add.commute)
qed

lemma setUint32_append:
  "setUint32 (A @ b0 # b1 # b2 # b3 # C) (int (length A)) v =
     Inr (A @ word_of_int (ToUint32 v) # word_of_int (ToUint32 v div 2 ^ 8)
            # word_of_int (ToUint32 v div 2 ^ 16) # word_of_int (ToUint32 v div 2 ^ 24) # C)"
  by (simp add: setUint32_def list_update_append Let_def)

section \<open>Pre-processing of the digest\<close>

text \<open>Below \<open>2^31 - 72\<close> bytes the pre-processing succeeds: the input, the byte \<open>0x80\<close>,
  zero bytes up to the padded length less eight, the low 32 bits of the bit length, low
  byte first, and four zero bytes.\<close>

lemma md5_preprocess_small:
  assumes "int (length bytes) + 72 < 2 ^ 31"
  shows "md5_preprocess bytes =
     Inr (bytes @ 0x80 # replicate (padded_length (length bytes) - length bytes - 9) 0
          @ [word_of_int (ToUint32 (int (length bytes) * 8)),
             word_of_int (ToUint32 (int (length bytes) * 8) div 2 ^ 8),
             word_of_int (ToUint32 (int (length bytes) * 8) div 2 ^ 16),
             word_of_int (ToUint32 (int (length bytes) * 8) div 2 ^ 24), 0, 0, 0, 0])"
proof -
  define L where "L = length bytes"
  define P where "P = padded_length L"
  define k where "k = P - L - 9"
  define A where "A = bytes @ 0x80 # replicate k (0::byte)"
  have P: "P = L + 9 + k" using padded_length_bounds(1)[of L] by (simp add: k_def P_def)
  have lenA: "length A = L + 1 + k" by (simp add: A_def L_def)
  have mp: "ToInt32 (int L + 9 + 63) AND NOT 63 = int P"
    using msgLenPadded_small[OF assms] by (simp only: L_def P_def)
  have s1: "new_Uint8Array (int P) = Inr (replicate P 0)" by (simp add: new_Uint8Array_def)
  have s2: "Uint8Array_set (replicate P 0) bytes 0 = Inr (bytes @ replicate (9 + k) 0)"
    by (simp add: Uint8Array_set_def P L_def)
  have s3: "store (bytes @ replicate (9 + k) 0) L 0x80 = A @ replicate 8 0"
  proof -
    have "replicate (9 + k) (0::byte) = 0 # replicate k 0 @ replicate 8 0"
      by (simp only: replicate_add[symmetric] replicate_Suc[symmetric]) simp
    then show ?thesis by (simp add: store_def list_update_append L_def A_def)
  qed
  have r8: "replicate 8 (0::byte) = [0,0,0,0,0,0,0,0]" by (simp add: numeral_eq_Suc)
  have o1: "int P - 8 = int (length A)" by (simp add: P lenA)
  have s4: "setUint32 (A @ replicate 8 0) (int P - 8) v =
     Inr ((A @ [word_of_int (ToUint32 v), word_of_int (ToUint32 v div 2 ^ 8),
            word_of_int (ToUint32 v div 2 ^ 16), word_of_int (ToUint32 v div 2 ^ 24)]) @ [0,0,0,0])" for v
    unfolding o1 r8 by (simp add: setUint32_append)
  have o2: "int P - 4 = int (length (A @ [a,b,c,d]))" for a b c d :: byte by (simp add: P lenA)
  have s5: "setUint32 ((A @ [a,b,c,d]) @ [0,0,0,0]) (int P - 4) 0 = Inr ((A @ [a,b,c,d]) @ [0,0,0,0])" for a b c d
    unfolding o2[of a b c d] by (simp only: setUint32_append) (simp add: ToUint32_def)
  show ?thesis
    unfolding md5_preprocess_def Let_def L_def[symmetric] mp
    by (simp add: bindE_def s1 s2 s3 s4 s5 del: append_assoc) (simp add: A_def k_def P_def)
qed

section \<open>When the digest succeeds and when it raises\<close>

lemma length_md5_result: "length (md5_result h) = 16"
  by (cases h) (simp add: md5_result_def u32_le_def)

lemma md5_small:
  assumes "int (length bytes) + 72 < 2 ^ 31"
  shows "md5 bytes = Inr (digest bytes)" and "length (digest bytes) = 16"
proof -
  from md5_preprocess_small[OF assms] obtain msg where "md5_preprocess bytes = Inr msg" by blast
  then have m: "md5 bytes = Inr (md5_result (md5_loop msg 0 (0x67452301, 0xefcdab89, 0x98badcfe, 0x10325476)))"
    by (simp add: md5_def bindE_def)
  then show "md5 bytes = Inr (digest bytes)" by (simp add: digest_def)
  from m show "length (digest bytes) = 16" by (simp add: digest_def length_md5_result)
qed

lemma mod_le_sub:
  fixes y m :: int
  assumes "m \<le> y"
  shows "y mod m \<le> y - m"
proof -
  have "y mod m = (y - m) mod m" by (simp only: minus_mod_self2)
  also have "\<dots> \<le> y - m" using assms by (intro zmod_le_nonneg_dividend) simp
  finally show ?thesis .
qed

lemma ToInt32_large:
  assumes "2 ^ 31 \<le> x"
  shows "ToInt32 x \<le> x - 2 ^ 32"
proof -
  have "2 ^ 32 \<le> x + 2 ^ 31" using assms by simp
  then have "(x + 2 ^ 31) mod 2 ^ 32 \<le> x + 2 ^ 31 - 2 ^ 32" by (rule mod_le_sub)
  then show ?thesis unfolding ToInt32_def by linarith
qed

lemma md5_preprocess_large:
  assumes "2 ^ 31 \<le> int (length bytes) + 72"
  shows "md5_preprocess bytes = Inl RangeError"
proof -
  define T where "T = ToInt32 (int (length bytes) + 9 + 63)"
  define P where "P = T AND NOT 63"
  have T: "T \<le> int (length bytes) + 72 - 2 ^ 32" using ToInt32_large[of "int (length bytes) + 72"] assms by (simp add: T_def add.commute)
  have "T div 64 * 64 \<le> T" by (simp add: minus_mod_eq_div_mult[symmetric])
  then have P: "P \<le> T" by (simp add: P_def and_minus_64)
  show ?thesis
  proof (cases "P < 0")
    case True
    then show ?thesis unfolding md5_preprocess_def Let_def T_def[symmetric] P_def[symmetric]
      by (simp add: new_Uint8Array_def bindE_def)
  next
    case False
    have "int (length bytes) + 72 - 2 ^ 32 < int (length bytes)" by simp
    with False have "nat P < length bytes" using P T by linarith
    with False show ?thesis unfolding md5_preprocess_def Let_def T_def[symmetric] P_def[symmetric]
      by (simp add: new_Uint8Array_def bindE_def Uint8Array_set_def)
  qed
qed

lemma md5_large: "2 ^ 31 \<le> int (length bytes) + 72 \<Longrightarrow> md5 bytes = Inl RangeError"
  by (simp add: md5_def md5_preprocess_large bindE_def)

section \<open>Evaluating the digest\<close>

lemma norm32_numeral: "norm32 (numeral n) = word_of_nat (numeral n mod 4294967296)"
proof -
  have l: "(2::nat) ^ LENGTH(32) = 4294967296" by simp
  have "(word_of_nat m :: u32) = word_of_nat (m mod 4294967296)" for m
    unfolding word_of_nat_eq_iff take_bit_eq_mod l by (simp only: mod_mod_trivial)
  from this[of "numeral n"] show ?thesis by (simp only: norm32_def of_nat_numeral)
qed

lemma norm32_0: "norm32 0 = 0" "norm32 1 = 1"
  by (simp_all add: norm32_def)

lemma not32: "NOT (x :: u32) = x XOR 0xffffffff"
proof -
  have "(0xffffffff :: u32) = - 1" by simp
  then show ?thesis by (simp only: bit.xor_one_right)
qed

lemma upt_64: "[0..<64] = 0 # 1 # [2..<64]"
  by (simp add: upt_conv_Cons)

lemma md5_round_eval:
  "md5_round msg offset i (a, b, c, d) =
     (let (f, g) =
           (if i < 16 then ((b AND c) OR ((b XOR 0xffffffff) AND d), i)
            else if i < 32 then ((d AND b) OR ((d XOR 0xffffffff) AND c), (5 * i + 1) mod 16)
            else if i < 48 then (b XOR c XOR d, (3 * i + 5) mod 16)
            else (c XOR (b OR (d XOR 0xffffffff)), (7 * i) mod 16));
         f = norm32 (f + a + K ! i + chunk_word msg offset g)
     in (d, norm32 (b + (push_bit (S ! i) f OR drop_bit (32 - S ! i) f)), b, c))"
  unfolding md5_round_def norm32_def not32 by simp

lemma md5_chunk_eval:
  "md5_chunk msg offset (a0, b0, c0, d0) =
     (case fold (md5_round msg offset) [0..<64] (a0, b0, c0, d0) of
        (a, b, c, d) \<Rightarrow> (norm32 (a0 + a), norm32 (b0 + b), norm32 (c0 + c), norm32 (d0 + d)))"
  by (simp add: md5_chunk_def norm32_def)

lemmas md5_eval = md5_chunk_eval md5_round_eval chunk_word_def S_def K_def Let_def
  norm32_numeral norm32_0 upt_64

lemma md5_loop_1: "length msg = 64 \<Longrightarrow> md5_loop msg 0 h = md5_chunk msg 0 h"
  by (simp add: md5_loop.simps[of msg 0] md5_loop.simps[of msg 64])

lemma md5_loop_2:
  "length msg = 128 \<Longrightarrow> md5_loop msg 0 h = md5_chunk msg 64 (md5_chunk msg 0 h)"
  by (simp add: md5_loop.simps[of msg 0] md5_loop.simps[of msg 64] md5_loop.simps[of msg 128])

lemma md5_from_preprocess:
  "md5_preprocess bytes = Inr msg \<Longrightarrow>
     md5 bytes = Inr (md5_result (md5_loop msg 0 (0x67452301, 0xefcdab89, 0x98badcfe, 0x10325476)))"
  by (simp add: md5_def bindE_def)

lemma replicate_eval: "replicate (numeral k) x = x # replicate (pred_numeral k) x"
  by (simp add: numeral_eq_Suc)

lemma length_msg_empty: "length msg_empty = 64"
  by (simp add: msg_empty_def)

lemma pre_empty: "md5_preprocess [] = Inr msg_empty"
  using md5_preprocess_small[of "[]"]
  by (simp add: padded_length_def ToUint32_def msg_empty_def replicate_eval)

lemma chunk_empty_0:
  "md5_chunk msg_empty 0
     (0x67452301, 0xefcdab89, 0x98badcfe, 0x10325476)
   = (0xd98c1dd4, 0x04b2008f, 0x980980e9, 0x7e42f8ec)"
  unfolding msg_empty_def by (simp add: md5_eval)

lemma result_empty:
  "md5_result (0xd98c1dd4, 0x04b2008f, 0x980980e9, 0x7e42f8ec) =
     [0xd4, 0x1d, 0x8c, 0xd9, 0x8f, 0x00, 0xb2, 0x04, 0xe9, 0x80, 0x09, 0x98, 0xec, 0xf8, 0x42,
      0x7e]"
  by (simp add: md5_result_def u32_le_def)

lemma length_msg_abc: "length msg_abc = 64"
  by (simp add: msg_abc_def)

lemma pre_abc: "md5_preprocess [0x61, 0x62, 0x63] = Inr msg_abc"
  using md5_preprocess_small[of "[0x61, 0x62, 0x63]"]
  by (simp add: padded_length_def ToUint32_def msg_abc_def replicate_eval)

lemma chunk_abc_0:
  "md5_chunk msg_abc 0
     (0x67452301, 0xefcdab89, 0x98badcfe, 0x10325476)
   = (0x98500190, 0xb04fd23c, 0x7d3f96d6, 0x727fe128)"
  unfolding msg_abc_def by (simp add: md5_eval)

lemma result_abc:
  "md5_result (0x98500190, 0xb04fd23c, 0x7d3f96d6, 0x727fe128) =
     [0x90, 0x01, 0x50, 0x98, 0x3c, 0xd2, 0x4f, 0xb0, 0xd6, 0x96, 0x3f, 0x7d, 0x28, 0xe1, 0x7f,
      0x72]"
  by (simp add: md5_result_def u32_le_def)

lemma length_msg_56: "length msg_56 = 128"
  by (simp add: msg_56_def)

lemma pre_56: "md5_preprocess input_56 = Inr msg_56"
  using md5_preprocess_small[of input_56]
  by (simp add: input_56_def padded_length_def ToUint32_def msg_56_def replicate_eval)

lemma chunk_56_0:
  "md5_chunk msg_56 0
     (0x67452301, 0xefcdab89, 0x98badcfe, 0x10325476)
   = (0x45c58752, 0xee1afb09, 0x3c10e678, 0x886f248c)"
  unfolding msg_56_def by (simp add: md5_eval)

lemma chunk_56_1:
  "md5_chunk msg_56 64
     (0x45c58752, 0xee1afb09, 0x3c10e678, 0x886f248c)
   = (0x07ef1582, 0xca0ba296, 0xd316e1aa, 0x4a666c87)"
  unfolding msg_56_def by (simp add: md5_eval)

lemma result_56:
  "md5_result (0x07ef1582, 0xca0ba296, 0xd316e1aa, 0x4a666c87) =
     [0x82, 0x15, 0xef, 0x07, 0x96, 0xa2, 0x0b, 0xca, 0xaa, 0xe1, 0x16, 0xd3, 0x87, 0x6c, 0x66,
      0x4a]"
  by (simp add: md5_result_def u32_le_def)

lemma md5_empty: "md5 [] = Inr [0xd4, 0x1d, 0x8c, 0xd9, 0x8f, 0x00, 0xb2, 0x04, 0xe9, 0x80, 0x09, 0x98, 0xec, 0xf8, 0x42, 0x7e]"
  by (simp only: md5_from_preprocess[OF pre_empty] md5_loop_1[OF length_msg_empty] chunk_empty_0 result_empty)

lemma md5_abc: "md5 [0x61, 0x62, 0x63] = Inr [0x90, 0x01, 0x50, 0x98, 0x3c, 0xd2, 0x4f, 0xb0, 0xd6, 0x96, 0x3f, 0x7d, 0x28, 0xe1, 0x7f, 0x72]"
  by (simp only: md5_from_preprocess[OF pre_abc] md5_loop_1[OF length_msg_abc] chunk_abc_0 result_abc)

lemma md5_56: "md5 input_56 = Inr [0x82, 0x15, 0xef, 0x07, 0x96, 0xa2, 0x0b, 0xca, 0xaa, 0xe1, 0x16, 0xd3, 0x87, 0x6c, 0x66, 0x4a]"
  by (simp only: md5_from_preprocess[OF pre_56] md5_loop_2[OF length_msg_56] chunk_56_0 chunk_56_1 result_56)

section \<open>The digest primitive\<close>

text \<open>The digests of the empty input, of the ASCII string \<open>abc\<close> and of the 56-byte input
  \<open>abcdbcdecdefdefgefghfghighijhijkijkljklmklmnlmnomnopnopq\<close> are the published MD5
  values \<open>d41d8cd9\<dots>\<close>, \<open>90015098\<dots>\<close> and \<open>8215ef07\<dots>\<close>; by \<open>md5_small\<close>, every input
  shorter than \<open>2^31 - 72\<close> bytes has a digest of 16 bytes.\<close>

lemma md5_vectors:
  "md5 [] = Inr [0xd4, 0x1d, 0x8c, 0xd9, 0x8f, 0x00, 0xb2, 0x04,
                     0xe9, 0x80, 0x09, 0x98, 0xec, 0xf8, 0x42, 0x7e]
   \<and> md5 [0x61, 0x62, 0x63] = Inr [0x90, 0x01, 0x50, 0x98, 0x3c, 0xd2, 0x4f, 0xb0,
                                     0xd6, 0x96, 0x3f, 0x7d, 0x28, 0xe1, 0x7f, 0x72]
   \<and> md5 [0x61, 0x62, 0x63, 0x64, 0x62, 0x63, 0x64, 0x65, 0x63, 0x64, 0x65, 0x66, 0x64, 0x65, 0x66,
         0x67, 0x65, 0x66, 0x67, 0x68, 0x66, 0x67, 0x68, 0x69, 0x67, 0x68, 0x69, 0x6a, 0x68, 0x69,
         0x6a, 0x6b, 0x69, 0x6a, 0x6b, 0x6c, 0x6a, 0x6b, 0x6c, 0x6d, 0x6b, 0x6c, 0x6d, 0x6e, 0x6c,
         0x6d, 0x6e, 0x6f, 0x6d, 0x6e, 0x6f, 0x70, 0x6e, 0x6f, 0x70, 0x71]
       = Inr [0x82, 0x15, 0xef, 0x07, 0x96, 0xa2, 0x0b, 0xca,
              0xaa, 0xe1, 0x16, 0xd3, 0x87, 0x6c, 0x66, 0x4a]"  using md5_empty md5_abc md5_56 unfolding input_56_def by (intro conjI)

text \<open>
  Claim C4, at an input of \<open>2^31 - 72\<close> bytes. The claim has \<^verbatim>\<open>md5\<close> return 16 bytes for
  every input, with no failure. The padded length \<^verbatim>\<open>(msgLen + 9 + 63) & ~63\<close> is computed
  on 32 bits: for \<open>2^31 - 72\<close> bytes it is \<open>- 2^31\<close>, and \<^verbatim>\<open>new Uint8Array\<close> raises
  \<^verbatim>\<open>RangeError\<close>, where an input one byte shorter still has its 16-byte digest.
\<close>

theorem md5_raises_RangeError:
  "md5 (replicate 2147483576 0) = Inl RangeError
   \<and> (\<exists>h. md5 (replicate 2147483575 0) = Inr h \<and> length h = 16)"
proof -
  have "md5 (replicate 2147483576 0) = Inl RangeError"
    by (rule md5_large) simp
  moreover have "md5 (replicate 2147483575 0) = Inr (digest (replicate 2147483575 0))"
    "length (digest (replicate 2147483575 (0::byte))) = 16"
    by (rule md5_small, simp)+
  ultimately show ?thesis by blast
qed

section \<open>The length field of the padded message\<close>

text \<open>Below \<open>2^29\<close> bytes the padding is the one of the specification: \<open>0x80\<close>, fewer than
  64 zero bytes up to a length of 56 modulo 64, and the bit length as 8 little-endian
  bytes.\<close>

lemma le_bytes_8:
  assumes "0 \<le> v" and "v < 2 ^ 32"
  shows "le_bytes 8 v = [word_of_int v, word_of_int (v div 2 ^ 8), word_of_int (v div 2 ^ 16),
                         word_of_int (v div 2 ^ 24), 0, 0, 0, 0]"
proof -
  have "v div 4294967296 = 0" using assms by simp
  moreover have "v div 1099511627776 = 0" "v div 281474976710656 = 0"
    "v div 72057594037927936 = 0" using assms by simp_all
  ultimately show ?thesis by (simp add: le_bytes_def upt_conv_Cons)
qed

lemma md5_preprocess_spec:
  assumes "length bytes < 2 ^ 29"
  shows "\<exists>k<64. md5_preprocess bytes
                   = Inr (bytes @ 0x80 # replicate k 0 @ le_bytes 8 (8 * int (length bytes)))
               \<and> (length bytes + 1 + k) mod 64 = 56"
proof -
  define P where "P = padded_length (length bytes)"
  define k where "k = P - length bytes - 9"
  have b: "length bytes + 9 \<le> P" "P \<le> length bytes + 72" "P mod 64 = 0"
    unfolding P_def by (rule padded_length_bounds)+
  have s: "int (length bytes) + 72 < 2 ^ 31" using assms by simp
  have v: "0 \<le> 8 * int (length bytes)" "8 * int (length bytes) < 2 ^ 32" using assms by simp_all
  have u: "ToUint32 (int (length bytes) * 8) = 8 * int (length bytes)"
    using v by (simp add: ToUint32_def mult.commute)
  have "md5_preprocess bytes
          = Inr (bytes @ 0x80 # replicate k 0 @ le_bytes 8 (8 * int (length bytes)))"
    unfolding md5_preprocess_small[OF s] u le_bytes_8[OF v] k_def P_def ..
  moreover have "k < 64" using b by (simp add: k_def)
  moreover have "(length bytes + 1 + k) mod 64 = 56"
  proof -
    have "length bytes + 1 + k + 8 = P" using b by (simp add: k_def)
    moreover from b(3) obtain q where "P = 64 * q" by (auto simp add: mod_eq_0_iff_dvd)
    ultimately have q: "length bytes + 1 + k + 8 = 64 * q" by simp
    then obtain r where "q = Suc r" by (cases q) simp_all
    with q have "length bytes + 1 + k = 56 + 64 * r" by simp
    then show ?thesis by simp
  qed
  ultimately show ?thesis by blast
qed

text \<open>
  Claim C5, at an input of \<open>2^29\<close> bytes. The bit length is \<open>2^32\<close>, whose 64-bit
  little-endian encoding is \<open>00 00 00 00 01 00 00 00\<close>; \<^verbatim>\<open>md5\<close> writes the bit length
  modulo \<open>2^32\<close> into the low word and the constant \<open>0\<close> into the high word, so the padded
  message ends with eight zero bytes.
\<close>

theorem md5_preprocess_high_word:
  "md5_preprocess (replicate 536870912 0)
     = Inr (replicate 536870912 0 @ 0x80 # replicate 55 0 @ [0, 0, 0, 0, 0, 0, 0, 0])
   \<and> le_bytes 8 (8 * int (length (replicate 536870912 (0::byte)))) = [0, 0, 0, 0, 1, 0, 0, 0]"
proof -
  have "md5_preprocess (replicate 536870912 0)
     = Inr (replicate 536870912 0 @ 0x80 # replicate 55 0 @ [0, 0, 0, 0, 0, 0, 0, 0])"
    using md5_preprocess_small[of "replicate 536870912 0"]
    by (simp add: padded_length_def ToUint32_def)
  moreover have "le_bytes 8 (8 * int (length (replicate 536870912 (0::byte)))) = [0, 0, 0, 0, 1, 0, 0, 0]"
    by (simp add: le_bytes_def upt_conv_Cons)
  ultimately show ?thesis by (rule conjI)
qed

section \<open>The password normalizer\<close>

lemma length_PADDING: "length PADDING = 32"
  by (simp add: PADDING_def)

lemma padPassword_pad: "padPassword p = Inr (pad p)"
  by (simp add: padPassword_def pad_def bindE_def new_Uint8Array_def Uint8Array_set_def
      slice_def length_PADDING)

lemma length_pad: "length (pad p) = 32"
  by (simp add: pad_def length_PADDING)

text \<open>
  Claim C6. For every encoded password \<open>p\<close>, \<^verbatim>\<open>padPassword\<close> returns, without raising,
  an array of exactly 32 bytes: the first 32 bytes of \<open>p\<close> when \<open>p\<close> has at least 32
  bytes, and otherwise \<open>p\<close> followed by the first \<open>32 - length p\<close> bytes of the padding
  constant. The constant is the published sequence \<open>28 BF 4E 5E \<dots> 64 53 69 7A\<close>, and the
  empty password yields the whole constant.
\<close>

theorem padPassword_spec:
  "padPassword p = Inr (pad p) \<and> length (pad p) = 32
   \<and> (32 \<le> length p \<longrightarrow> pad p = take 32 p)
   \<and> (length p < 32 \<longrightarrow> pad p = p @ take (32 - length p) PADDING)
   \<and> PADDING = [0x28, 0xBF, 0x4E, 0x5E, 0x4E, 0x75, 0x8A, 0x41,
                0x64, 0x00, 0x4E, 0x56, 0xFF, 0xFA, 0x01, 0x08,
                0x2E, 0x2E, 0x00, 0xB6, 0xD0, 0x68, 0x3E, 0x80,
                0x2F, 0x0C, 0xA9, 0xFE, 0x64, 0x53, 0x69, 0x7A]
   \<and> padPassword [] = Inr PADDING"
proof -
  have "pad [] = PADDING" by (simp add: pad_def length_PADDING[symmetric])
  then have "padPassword [] = Inr PADDING" by (simp add: padPassword_pad)
  moreover have "length p < 32 \<longrightarrow> pad p = p @ take (32 - length p) PADDING"
    by (simp add: pad_def)
  moreover have "32 \<le> length p \<longrightarrow> pad p = take 32 p" by (simp add: pad_def)
  ultimately show ?thesis using padPassword_pad length_pad by (simp add: PADDING_def)
qed

theorem padPassword_spec_witness:
  "padPassword [0x61, 0x62] = Inr ([0x61, 0x62] @ take 30 PADDING)
   \<and> length [0x61, 0x62 :: byte] < 32"
proof -
  have "pad [0x61, 0x62] = [0x61, 0x62] @ take (32 - length [0x61, 0x62 :: byte]) PADDING"
    using padPassword_spec[of "[0x61, 0x62]"] by simp
  moreover have "padPassword [0x61, 0x62] = Inr (pad [0x61, 0x62])"
    using padPassword_spec[of "[0x61, 0x62]"] by simp
  ultimately show ?thesis by simp
qed

section \<open>The stream cipher\<close>

lemma process_twice:
  "process st (snd (process st xs)) = (fst (process st xs), xs)"
proof (induction xs arbitrary: st)
  case Nil
  show ?case by simp
next
  case (Cons x xs)
  obtain st1 k where s: "prga_step st = (st1, k)" by (cases "prga_step st")
  obtain st2 ys where p: "process st1 xs = (st2, ys)" by (cases "process st1 xs")
  from Cons.IH[of st1] p have "process st1 ys = (st2, xs)" by simp
  with s p show ?case by (simp add: xor.assoc)
qed

lemma length_process: "length (snd (process st xs)) = length xs"
proof (induction xs arbitrary: st)
  case Nil
  show ?case by simp
next
  case (Cons x xs)
  then show ?case by (simp add: split_def Let_def)
qed

text \<open>
  Claim C8. For every non-empty key and every data buffer, of any length, processing
  the data with a fresh instance and processing the result with a second fresh instance
  of the same key gives the data back; each call to \<^verbatim>\<open>process\<close> returns as many bytes
  as it was given.
\<close>

theorem RC4_round_trip:
  "key \<noteq> [] \<Longrightarrow>
     snd (process (RC4 key) (snd (process (RC4 key) data))) = data
     \<and> length (snd (process (RC4 key) data)) = length data
     \<and> length (snd (process (RC4 key) (snd (process (RC4 key) data))))
         = length (snd (process (RC4 key) data))"
  by (simp add: process_twice length_process)

theorem RC4_round_trip_witness:
  "[0x4b, 0x65, 0x79] \<noteq> ([] :: byte list)
   \<and> snd (process (RC4 [0x4b, 0x65, 0x79])
         (snd (process (RC4 [0x4b, 0x65, 0x79]) [0x50, 0x6c, 0x61]))) = [0x50, 0x6c, 0x61]"
  using RC4_round_trip[of "[0x4b, 0x65, 0x79]" "[0x50, 0x6c, 0x61]"] by simp

section \<open>The key schedule when \<open>j\<close> stays at zero\<close>

lemma zero_j_table_nth:
  assumes "Suc n < 256"
  shows "zero_j_table n ! Suc n = of_nat (Suc n)"
proof -
  have "(map of_nat [0..<n] @ map of_nat [Suc n..<256]) ! n = (of_nat (Suc n) :: byte)"
    using assms by (simp add: nth_append)
  then show ?thesis by (simp add: zero_j_table_def)
qed

lemma zero_j_table_swap:
  assumes "Suc n < 256"
  shows "swap (zero_j_table n) (Suc n) 0 = zero_j_table (Suc n)"
proof -
  have B: "map of_nat [Suc n..<256] = (of_nat (Suc n) :: byte) # map of_nat [Suc (Suc n)..<256]"
    using assms by (simp add: upt_conv_Cons)
  have "swap (zero_j_table n) (Suc n) 0
          = (zero_j_table n)[Suc n := of_nat n, 0 := of_nat (Suc n)]"
    unfolding swap_def zero_j_table_nth[OF assms] by (simp add: zero_j_table_def)
  also have "\<dots> = zero_j_table (Suc n)"
    by (simp add: zero_j_table_def B list_update_append)
  finally show ?thesis .
qed

lemma zero_j_table_0: "swap (map of_nat [0..<256]) 0 0 = zero_j_table 0"
proof -
  have "[0..<256] = 0 # [Suc 0..<256]" by (simp add: upt_rec[of 0 256])
  then show ?thesis by (simp add: swap_def zero_j_table_def)
qed

lemma ksa_zero_j:
  assumes step: "\<And>i s. i < 256 \<Longrightarrow> s ! i = of_nat i \<Longrightarrow> ksa_step key i (s, 0) = (swap s i 0, 0)"
    and n: "n < 256"
  shows "fold (ksa_step key) [0..<Suc n] (map of_nat [0..<256], 0) = (zero_j_table n, 0)"
  using n
proof (induction n)
  case 0
  have "ksa_step key 0 (map of_nat [0..<256], 0) = (swap (map of_nat [0..<256]) 0 0, 0)"
    by (rule step) simp_all
  then show ?case by (simp add: zero_j_table_0)
next
  case (Suc n)
  then have IH: "fold (ksa_step key) [0..<Suc n] (map of_nat [0..<256], 0) = (zero_j_table n, 0)"
    by simp
  have "ksa_step key (Suc n) (zero_j_table n, 0) = (swap (zero_j_table n) (Suc n) 0, 0)"
    using Suc.prems by (intro step zero_j_table_nth)
  then show ?case using Suc.prems IH by (simp add: zero_j_table_swap)
qed

lemma RC4_zero_j:
  assumes "\<And>i s. i < 256 \<Longrightarrow> s ! i = of_nat i \<Longrightarrow> ksa_step key i (s, 0) = (swap s i 0, 0)"
  shows "RC4 key = \<lparr>rc4_s = 255 # map of_nat [0..<255], rc4_i = 0, rc4_j = 0\<rparr>"
proof -
  have "fold (ksa_step key) [0..<Suc 255] (map of_nat [0..<256], 0) = (zero_j_table 255, 0)"
    by (rule ksa_zero_j[OF assms]) simp_all
  moreover have "zero_j_table 255 = 255 # map of_nat [0..<255]" by (simp add: zero_j_table_def)
  moreover have "Suc 255 = 256" by simp
  ultimately show ?thesis by (simp add: RC4_def)
qed

lemma ksa_step_empty: "ksa_step [] i (s, j) = (swap s i 0, 0)"
  by (simp add: ksa_step_def key_byte_def)

lemma RC4_empty: "RC4 [] = \<lparr>rc4_s = 255 # map of_nat [0..<255], rc4_i = 0, rc4_j = 0\<rparr>"
  by (rule RC4_zero_j) (rule ksa_step_empty)

lemma unat_byte_of_nat: "n < 256 \<Longrightarrow> unat (of_nat n :: byte) = n"
  by (simp add: unat_of_nat)

lemma zero_j_key_byte: "i < 256 \<Longrightarrow> key_byte zero_j_key i = Some (of_nat (256 - i))"
  by (simp add: key_byte_def zero_j_key_def)

lemma and_255_mod: "(n::nat) AND 0xFF = n mod 256"
proof -
  have "(0xFF::nat) = mask 8" by (simp add: mask_eq_exp_minus_1)
  then show ?thesis by (simp only: take_bit_eq_mask[symmetric] take_bit_eq_mod) simp
qed

lemma ksa_step_zero_j_key:
  assumes "i < 256" and "s ! i = of_nat i"
  shows "ksa_step zero_j_key i (s, 0) = (swap s i 0, 0)"
proof -
  have "unat (of_nat (256 - i) :: byte) = (256 - i) mod 256"
    by (simp add: unat_of_nat)
  moreover have "(i + (256 - i) mod 256) mod 256 = 0"
    using assms(1) by (cases "i = 0") (simp_all add: mod_if)
  ultimately have "(0 + unat (s ! i) + unat (of_nat (256 - i) :: byte)) AND 0xFF = 0"
    using assms by (simp add: and_255_mod unat_byte_of_nat)
  then show ?thesis using assms(1) by (simp add: ksa_step_def zero_j_key_byte)
qed

lemma RC4_zero_j_key:
  "RC4 zero_j_key = \<lparr>rc4_s = 255 # map of_nat [0..<255], rc4_i = 0, rc4_j = 0\<rparr>"
  by (rule RC4_zero_j) (rule ksa_step_zero_j_key)

lemma prga_first:
  "prga_step \<lparr>rc4_s = 255 # map of_nat [0..<255], rc4_i = 0, rc4_j = 0\<rparr>
     = (\<lparr>rc4_s = 0 # 255 # map of_nat [1..<255], rc4_i = 1, rc4_j = 0\<rparr>, 254)"
proof -
  have u: "[0..<255] = 0 # [1..<255]" by (simp add: upt_rec[of 0 255])
  have n: "(0 # 255 # map of_nat [1..<255]) ! 255 = (254 :: byte)"
    by (simp add: nth_Cons')
  show ?thesis
    by (simp add: prga_step_def swap_def Let_def u and_255_mod n)
qed

lemma prga_second:
  "prga_step \<lparr>rc4_s = a # 255 # 1 # rest, rc4_i = 1, rc4_j = 0\<rparr>
     = (\<lparr>rc4_s = a # 1 # 255 # rest, rc4_i = 2, rc4_j = 1\<rparr>, a)"
proof -
  have u: "(x # y # z # rest)[2 := v] = x # y # v # rest" for x y z v :: byte
    by (simp add: numeral_2_eq_2)
  show ?thesis
    by (simp add: prga_step_def swap_def Let_def and_255_mod u)
qed

lemma process_append:
  "process st (xs @ ys) =
     (fst (process (fst (process st xs)) ys),
      snd (process st xs) @ snd (process (fst (process st xs)) ys))"
proof (induction xs arbitrary: st)
  case Nil
  show ?case by simp
next
  case (Cons x xs)
  then show ?case by (simp add: split_def Let_def)
qed

text \<open>
  Claim C10. Constructing an \<^verbatim>\<open>RC4\<close> instance with a key of length zero raises nothing:
  every step of the key schedule reads \<^verbatim>\<open>undefined\<close> for the key byte and leaves \<open>j\<close> at
  \<open>0\<close>, and the constructor ends with one fixed permutation (255 first, then 0 to 254);
  \<^verbatim>\<open>process\<close> on that instance returns as many bytes as it is given.
\<close>

theorem RC4_empty_key:
  "key_byte [] i = None
   \<and> snd (ksa_step [] i (s, j)) = 0
   \<and> RC4 [] = \<lparr>rc4_s = 255 # map of_nat [0..<255], rc4_i = 0, rc4_j = 0\<rparr>
   \<and> length (snd (process (RC4 []) data)) = length data"
  by (simp add: key_byte_def ksa_step_empty RC4_empty length_process)

text \<open>
  Claim C9. An instance continues its keystream across calls to \<^verbatim>\<open>process\<close>: two calls
  in a row produce what one call on the concatenated data produces. So there are a
  non-empty key and data for which a second call on the same instance returns something
  else than a fresh instance of the same key returns for the same data: with the 256-byte
  key \<open>0, 255, 254, \<dots>, 1\<close> and the data \<open>[0]\<close>, a fresh instance returns \<open>[254]\<close> and a
  second call on the same instance returns \<open>[0]\<close>.
\<close>

theorem RC4_stateful:
  "process st (xs @ ys) =
     (fst (process (fst (process st xs)) ys),
      snd (process st xs) @ snd (process (fst (process st xs)) ys))
   \<and> snd (process (RC4 zero_j_key) [0]) = [254]
   \<and> snd (process (fst (process (RC4 zero_j_key) [0])) [0]) = [0]
   \<and> (\<exists>key data. key \<noteq> [] \<and>
         snd (process (fst (process (RC4 key) data)) data) \<noteq> snd (process (RC4 key) data))"
proof -
  define st1 where "st1 = \<lparr>rc4_s = 0 # 255 # map of_nat [1..<255], rc4_i = 1, rc4_j = 0\<rparr>"
  have p1: "prga_step (RC4 zero_j_key) = (st1, 254)"
    unfolding RC4_zero_j_key st1_def by (rule prga_first)
  have "[Suc 0..<255] = Suc 0 # [Suc (Suc 0)..<255]" by (rule upt_conv_Cons) simp
  then have "st1 = \<lparr>rc4_s = 0 # 255 # 1 # map of_nat [Suc (Suc 0)..<255], rc4_i = 1, rc4_j = 0\<rparr>"
    by (simp add: st1_def)
  then have p2: "snd (prga_step st1) = 0" by (simp only: prga_second snd_conv)
  have 1: "process (RC4 zero_j_key) [0] = (st1, [254])" by (simp add: p1)
  have 2: "snd (process st1 [0]) = [0]" by (simp add: p2 split_def)
  have "zero_j_key \<noteq> []" by (simp add: zero_j_key_def upt_rec[of 0 256])
  moreover have a: "snd (process (RC4 zero_j_key) [0]) = [254]" by (simp only: 1 snd_conv)
  moreover have b: "snd (process (fst (process (RC4 zero_j_key) [0])) [0]) = [0]"
    by (simp only: 1 fst_conv 2)
  moreover have "snd (process (fst (process (RC4 zero_j_key) [0])) [0])
                  \<noteq> snd (process (RC4 zero_j_key) [0])"
    unfolding a b by simp
  ultimately show ?thesis using process_append by blast
qed

section \<open>Key derivation: auxiliary facts\<close>

lemma rehash_digest:
  "length h = 16 \<Longrightarrow> rehash n h = Inr ((digest ^^ n) h) \<and> length ((digest ^^ n) h) = 16"
proof (induction n arbitrary: h)
  case 0
  then show ?case by simp
next
  case (Suc n)
  have "md5 h = Inr (digest h)" "length (digest h) = 16" using Suc.prems by (simp_all add: md5_small)
  with Suc.IH[of "digest h"] show ?case
    by (simp add: bindE_def funpow_Suc_right del: funpow.simps)
qed

lemma rehash_slice_digest:
  "rehash_slice n h = Inr (((\<lambda>w. digest (take 16 w)) ^^ n) h)"
proof (induction n arbitrary: h)
  case 0
  then show ?case by simp
next
  case (Suc n)
  have "md5 (take 16 h) = Inr (digest (take 16 h))" by (rule md5_small) simp
  with Suc.IH[of "digest (take 16 h)"] show ?case
    by (simp add: bindE_def slice_def funpow_Suc_right del: funpow.simps)
qed

lemma xor_loop_prefix:
  "n \<le> length base \<Longrightarrow>
     fold (\<lambda>j key. store key j (base ! j XOR of_nat i)) [0..<n] (replicate (length base) 0)
       = map (\<lambda>b. b XOR of_nat i) (take n base) @ replicate (length base - n) 0"
proof (induction n)
  case 0
  then show ?case by simp
next
  case (Suc n)
  then have n: "n < length base" by simp
  have r: "replicate (length base - n) (0::byte) = 0 # replicate (length base - Suc n) 0"
    using n by (simp add: Suc_diff_Suc flip: replicate_Suc)
  from Suc n show ?case
    by (simp add: store_def list_update_append r take_Suc_conv_app_nth)
qed

lemma xor_loop_xorKey: "xor_loop base i = xorKey base i"
  using xor_loop_prefix[of "length base" base i] by (simp add: xor_loop_def xorKey_def)

lemma ToInt32_signed: "ToInt32 x = signed_take_bit 31 x"
  by (simp add: signed_take_bit_eq_take_bit_shift take_bit_eq_mod ToInt32_def)

lemma shr_byte_div: "k \<le> 24 \<Longrightarrow> shr_byte n k = word_of_int (n div 2 ^ k)"
proof -
  assume k: "k \<le> 24"
  have m: "(0xFF::int) = mask 8" by (simp add: mask_eq_exp_minus_1)
  show ?thesis
    unfolding shr_byte_def ToInt32_signed m drop_bit_eq_div[symmetric]
    by (rule bit_word_eqI) (use k in \<open>auto simp add: bit_simps\<close>)
qed

lemma le_bytes_4: "le_bytes 4 v = [shr_byte v 0, shr_byte v 8, shr_byte v 16, shr_byte v 24]"
  by (simp add: le_bytes_def shr_byte_div upt_conv_Cons)

lemma le_bytes_3: "le_bytes 3 v = [shr_byte v 0, shr_byte v 8, shr_byte v 16]"
  by (simp add: le_bytes_def shr_byte_div upt_conv_Cons)

lemma le_bytes_2: "le_bytes 2 v = [shr_byte v 0, shr_byte v 8]"
  by (simp add: le_bytes_def shr_byte_div upt_conv_Cons)

lemma length_stream_cipher: "length (stream_cipher key data) = length data"
  by (simp add: stream_cipher_def length_process)

lemma length_foldl_cipher:
  "length (foldl (\<lambda>payload k. stream_cipher (f k) payload) a ks) = length a"
  by (induction ks arbitrary: a) (simp_all add: length_stream_cipher)

lemma slice_all: "length a \<le> n \<Longrightarrow> slice a 0 n = a"
  by (simp add: slice_def)

lemma replicate_4: "replicate (4 + n) (0::byte) = [0, 0, 0, 0] @ replicate n 0"
  by (simp add: numeral_eq_Suc)

lemma replicate_5: "replicate 5 (0::byte) = [0, 0, 0, 0, 0]"
  by (simp add: numeral_eq_Suc)

lemma bindE_Inr: "bindE (Inr v) f = f v"
  by (simp add: bindE_def)

lemma new_Uint8Array_nat: "new_Uint8Array (int n) = Inr (replicate n 0)"
  by (simp add: new_Uint8Array_def)

lemma set_replicate:
  "Uint8Array_set (A @ replicate (length X + n) 0) X (length A) = Inr ((A @ X) @ replicate n 0)"
  by (simp add: Uint8Array_set_def replicate_add)

lemma set_replicate_0:
  "Uint8Array_set (replicate (length X + n) 0) X 0 = Inr (X @ replicate n 0)"
  using set_replicate[of "[]" X n] by simp

lemma set_replicate_end:
  "Uint8Array_set (A @ replicate (length X) 0) X (length A) = Inr (A @ X)"
  using set_replicate[of A X 0] by simp

lemma hashInput_build:
  "bindE (new_Uint8Array (int (length P + length ownerKey + 4 + length fileId))) (\<lambda>hashInput.
     let offset = 0 in
     bindE (Uint8Array_set hashInput P offset) (\<lambda>hashInput.
     let offset = offset + length P in
     bindE (Uint8Array_set hashInput ownerKey offset) (\<lambda>hashInput.
     let offset = offset + length ownerKey;
         hashInput = store hashInput offset b0;
         hashInput = store hashInput (offset + 1) b1;
         hashInput = store hashInput (offset + 2) b2;
         hashInput = store hashInput (offset + 3) b3;
         offset = offset + 4 in
     bindE (Uint8Array_set hashInput fileId offset) F))) = F (P @ ownerKey @ [b0, b1, b2, b3] @ fileId)"
proof -
  have n: "length P + length ownerKey + 4 + length fileId
            = length P + (length ownerKey + (4 + length fileId))" by simp
  have u: "store (store (store (store ((P @ ownerKey) @ replicate (4 + length fileId) 0)
             (length P + length ownerKey) b0) (length P + length ownerKey + 1) b1)
             (length P + length ownerKey + 2) b2) (length P + length ownerKey + 3) b3
           = (P @ ownerKey @ [b0, b1, b2, b3]) @ replicate (length fileId) 0"
    by (simp add: store_def list_update_append replicate_4)
  have l: "length P + length ownerKey + 4 = length (P @ ownerKey @ [b0, b1, b2, b3])" by simp
  have z: "0 + length P = length P" by simp
  have s2: "Uint8Array_set (P @ replicate (length ownerKey + (4 + length fileId)) 0) ownerKey (length P)
              = Inr ((P @ ownerKey) @ replicate (4 + length fileId) 0)"
    by (rule set_replicate)
  show ?thesis
    unfolding n new_Uint8Array_nat bindE_Inr Let_def set_replicate_0 z s2 u
    unfolding l set_replicate_end bindE_Inr by simp
qed

lemma funpow_50: "(f ^^ 50) h = f ((f ^^ 49) h)"
proof -
  have "(50::nat) = Suc 49" by simp
  then show ?thesis by (simp only: funpow.simps o_apply)
qed

lemma length_xor_loop: "length (xor_loop base i) = length base"
  by (simp add: xor_loop_xorKey xorKey_def)

lemma userKey_hashInput:
  "bindE (new_Uint8Array (int (length PADDING + length fileId))) (\<lambda>hashInput.
     bindE (Uint8Array_set hashInput PADDING 0) (\<lambda>hashInput.
     bindE (Uint8Array_set hashInput fileId (length PADDING)) F)) = F (PADDING @ fileId)"
  unfolding new_Uint8Array_nat bindE_Inr set_replicate_0 set_replicate_end ..

lemma userKey_final:
  assumes "length result = 16"
  shows "bindE (new_Uint8Array 32) (\<lambda>finalResult.
     bindE (Uint8Array_set finalResult result 0) (\<lambda>finalResult.
     bindE (new_Uint8Array 16) (\<lambda>zeros.
     Uint8Array_set finalResult zeros 16))) = Inr (result @ replicate 16 0)"
  using assms by (simp add: new_Uint8Array_def bindE_def Uint8Array_set_def)

lemma keyInput_build:
  "bindE (new_Uint8Array (int (length key + 5))) (\<lambda>keyInput.
     bindE (Uint8Array_set keyInput key 0) (\<lambda>keyInput.
     let keyInput = store keyInput (length key) b0;
         keyInput = store keyInput (length key + 1) b1;
         keyInput = store keyInput (length key + 2) b2;
         keyInput = store keyInput (length key + 3) b3;
         keyInput = store keyInput (length key + 4) b4 in
     F keyInput)) = F (key @ [b0, b1, b2, b3, b4])"
proof -
  have u: "store (store (store (store (store (key @ replicate 5 0) (length key) b0)
             (length key + 1) b1) (length key + 2) b2) (length key + 3) b3) (length key + 4) b4
           = key @ [b0, b1, b2, b3, b4]"
    by (simp add: store_def list_update_append replicate_5)
  show ?thesis
    unfolding new_Uint8Array_nat bindE_Inr set_replicate_0 Let_def u ..
qed

lemma computeEncryptionKey_md5:
  "computeEncryptionKey userPassword ownerKey permissions fileId =
     bindE (md5 (pad userPassword @ ownerKey @ le_bytes 4 permissions @ fileId))
       (\<lambda>hash. bindE (rehash_slice 50 hash) (\<lambda>hash. Inr (slice hash 0 16)))"
  unfolding computeEncryptionKey_def padPassword_pad bindE_Inr
  by (simp only: hashInput_build le_bytes_4[symmetric])

section \<open>The file encryption key\<close>

text \<open>
  Claim C1. For every encoded user password, owner value, permissions integer and file
  id, \<^verbatim>\<open>computeEncryptionKey\<close> returns the first 16 bytes of the value obtained by
  digesting \<open>pad userPassword @ ownerValue @\<close> the permissions as 4 little-endian bytes
  \<open>@ fileId\<close> and then digesting the first 16 bytes of the working value 50 more times;
  the result is exactly 16 bytes long. The inputs are those the function is called with:
  a hash input (32 + owner value + 4 + file id bytes) shorter than \<open>2^29\<close> bytes, the range
  on which the digest pads its input as the specification says.
\<close>

theorem computeEncryptionKey_spec:
  assumes "length ownerKey + length fileId + 36 < 2 ^ 29"
  shows "computeEncryptionKey userPassword ownerKey permissions fileId
           = Inr (deriveFileKey userPassword ownerKey permissions fileId)
         \<and> length (deriveFileKey userPassword ownerKey permissions fileId) = 16"
proof -
  define I where "I = pad userPassword @ ownerKey @ le_bytes 4 permissions @ fileId"
  have "length I = length ownerKey + length fileId + 36"
    by (simp add: I_def length_pad le_bytes_def)
  with assms have "int (length I) + 72 < 2 ^ 31" by simp
  then have d: "md5 I = Inr (digest I)" by (rule md5_small)
  have "computeEncryptionKey userPassword ownerKey permissions fileId =
     bindE (md5 I) (\<lambda>hash. bindE (rehash_slice 50 hash) (\<lambda>hash. Inr (slice hash 0 16)))"
    by (simp only: computeEncryptionKey_md5 I_def)
  then have c: "computeEncryptionKey userPassword ownerKey permissions fileId =
     Inr (take 16 (((\<lambda>w. digest (take 16 w)) ^^ 50) (digest I)))"
    by (simp add: d bindE_Inr rehash_slice_digest slice_def)
  have "length (digest (take 16 w)) = 16" for w by (rule md5_small(2)) simp
  then have "length (take 16 (((\<lambda>w. digest (take 16 w)) ^^ 50) (digest I))) = 16"
    by (simp add: funpow_50)
  with c show ?thesis by (simp add: deriveFileKey_def I_def)
qed

theorem computeEncryptionKey_spec_witness:
  "length (replicate 32 (0::byte)) + length (replicate 16 (0::byte)) + 36 < 2 ^ 29
   \<and> computeEncryptionKey [0x73, 0x65, 0x63] (replicate 32 0) 0xFFFFFFFC (replicate 16 0)
       = Inr (deriveFileKey [0x73, 0x65, 0x63] (replicate 32 0) 0xFFFFFFFC (replicate 16 0))
   \<and> length (deriveFileKey [0x73, 0x65, 0x63] (replicate 32 0) 0xFFFFFFFC (replicate 16 0)) = 16"
  using computeEncryptionKey_spec[of "replicate 32 0" "replicate 16 0" "[0x73, 0x65, 0x63]" "0xFFFFFFFC"]
  by simp

section \<open>The Owner value\<close>

text \<open>
  Claim C2. For every encoded user password and optional owner password,
  \<^verbatim>\<open>computeOwnerKey\<close> returns, without raising, the value the specification describes:
  with the effective password the owner password when it is given and not empty and the
  user password otherwise, digest \<open>pad effective\<close>, digest the 16-byte result 50 more times
  to get the base key, then pass \<open>pad userPassword\<close> through 20 fresh cipher instances in
  sequence, the one of iteration \<open>k\<close> (0 to 19) keyed by the base key with every byte
  XOR-ed with \<open>k\<close>. The result is exactly 32 bytes long.
\<close>

theorem computeOwnerKey_spec:
  "computeOwnerKey ownerPassword userPassword = Inr (deriveOwnerValue ownerPassword userPassword)
   \<and> length (deriveOwnerValue ownerPassword userPassword) = 32"
proof -
  define e where "e = effective_password ownerPassword userPassword"
  define base where "base = (digest ^^ 50) (digest (pad e))"
  have e: "(case ownerPassword of None \<Rightarrow> userPassword
            | Some p \<Rightarrow> if p = [] then userPassword else p) = e"
    by (simp add: e_def effective_password_def split: option.splits)
  have d: "md5 (pad e) = Inr (digest (pad e))" "length (digest (pad e)) = 16"
    by (simp_all add: md5_small length_pad)
  from rehash_digest[OF d(2), of 50]
  have r: "rehash 50 (digest (pad e)) = Inr base" "length base = 16"
    by (simp_all add: base_def)
  have k: "slice (xor_loop base i) 0 16 = xorKey base i" for i
    by (simp add: xor_loop_xorKey slice_all xorKey_def r(2))
  have "computeOwnerKey ownerPassword userPassword =
          Inr (foldl (\<lambda>payload k. stream_cipher (xorKey base k) payload) (pad userPassword) [0..<20])"
    unfolding computeOwnerKey_def e
    by (simp add: padPassword_pad bindE_def d r k foldl_conv_fold stream_cipher_def)
  moreover have "deriveOwnerValue ownerPassword userPassword =
          foldl (\<lambda>payload k. stream_cipher (xorKey base k) payload) (pad userPassword) [0..<20]"
    by (simp add: deriveOwnerValue_def base_def e_def)
  ultimately show ?thesis by (simp add: length_foldl_cipher length_pad)
qed

theorem computeOwnerKey_spec_witness:
  "computeOwnerKey (Some []) [0x73, 0x65, 0x63] = Inr (deriveOwnerValue None [0x73, 0x65, 0x63])
   \<and> effective_password (Some [0x6f]) [0x73] = [0x6f]
   \<and> length (deriveOwnerValue (Some []) [0x73, 0x65, 0x63]) = 32"
  using computeOwnerKey_spec[of "Some []" "[0x73, 0x65, 0x63]"]
  by (simp add: deriveOwnerValue_def effective_password_def)

section \<open>The User value\<close>

text \<open>
  Claim C3. For every file key and file id, \<^verbatim>\<open>computeUserKey\<close> returns the value the
  specification describes: digest the padding constant followed by the file id, encrypt
  the digest with a cipher keyed by the file key, apply 19 more passes (iterations 1 to
  19), each keyed by the file key with every byte XOR-ed with the iteration index, and
  append 16 zero bytes; the result is 32 bytes long, and each XOR-derived key has the
  length of the file key, whatever that length is. The file ids are those the function is
  called with: a hash input (32 + file id bytes) shorter than \<open>2^29\<close> bytes, the range on
  which the digest pads its input as the specification says.
\<close>

theorem computeUserKey_spec:
  assumes "length fileId + 32 < 2 ^ 29"
  shows "computeUserKey fileKey fileId = Inr (deriveUserValue fileKey fileId)
         \<and> length (deriveUserValue fileKey fileId) = 32
         \<and> length (xor_loop fileKey k) = length fileKey"
proof -
  define R where "R = foldl (\<lambda>payload k. stream_cipher (xorKey fileKey k) payload)
       (stream_cipher fileKey (digest (PADDING @ fileId))) [1..<20]"
  have "int (length (PADDING @ fileId)) + 72 < 2 ^ 31" using assms by (simp add: length_PADDING)
  then have d: "md5 (PADDING @ fileId) = Inr (digest (PADDING @ fileId))"
    "length (digest (PADDING @ fileId)) = 16" by (rule md5_small)+
  have R: "length R = 16" by (simp add: R_def length_foldl_cipher length_stream_cipher d(2))
  have f: "fold (\<lambda>i result. snd (process (RC4 (xor_loop fileKey i)) result)) [1..<20]
            (snd (process (RC4 fileKey) (digest (PADDING @ fileId)))) = R"
    by (simp add: R_def foldl_conv_fold stream_cipher_def xor_loop_xorKey)
  have "computeUserKey fileKey fileId = Inr (R @ replicate 16 0)"
    unfolding computeUserKey_def userKey_hashInput d(1) bindE_Inr Let_def f
    by (rule userKey_final[OF R])
  then show ?thesis unfolding deriveUserValue_def R_def[symmetric]
    by (simp add: R length_xor_loop)
qed

theorem computeUserKey_spec_witness:
  "length (replicate 16 (0::byte)) + 32 < 2 ^ 29
   \<and> computeUserKey [1, 2, 3, 4, 5] (replicate 16 0)
       = Inr (deriveUserValue [1, 2, 3, 4, 5] (replicate 16 0))
   \<and> length (xor_loop [1, 2, 3, 4, 5] 7) = 5"
  using computeUserKey_spec[of "replicate 16 0" "[1, 2, 3, 4, 5]" 7] by simp

section \<open>Per-object encryption\<close>

text \<open>
  Claim C7. For every file key (an encryption key has at most 16 bytes), every object
  number and every generation number, \<^verbatim>\<open>encryptObject\<close> applies to the payload a fresh
  cipher keyed by the first \<open>min (length fileKey + 5) 16\<close> bytes of the digest of the file
  key followed by the object number as 3 little-endian bytes and the generation number
  as 2 little-endian bytes; that key is at most 16 bytes long, and the output has the
  length of the payload.
\<close>

theorem encryptObject_spec:
  assumes "length fileKey \<le> 16"
  shows "encryptObject data objectNumber generationNumber fileKey
           = Inr (encryptPayload data fileKey objectNumber generationNumber)
         \<and> length (objectKey fileKey objectNumber generationNumber) = min (length fileKey + 5) 16
         \<and> length (objectKey fileKey objectNumber generationNumber) \<le> 16
         \<and> length (encryptPayload data fileKey objectNumber generationNumber) = length data"
proof -
  define I where "I = fileKey @ le_bytes 3 objectNumber @ le_bytes 2 generationNumber"
  have I: "I = fileKey @ [shr_byte objectNumber 0, shr_byte objectNumber 8, shr_byte objectNumber 16,
                shr_byte generationNumber 0, shr_byte generationNumber 8]"
    by (simp add: I_def le_bytes_3 le_bytes_2)
  have "int (length I) + 72 < 2 ^ 31" using assms by (simp add: I)
  then have d: "md5 I = Inr (digest I)" "length (digest I) = 16" by (rule md5_small)+
  have "encryptObject data objectNumber generationNumber fileKey =
     Inr (snd (process (RC4 (slice (digest I) 0 (min (length fileKey + 5) 16))) data))"
    unfolding encryptObject_def keyInput_build I[symmetric] d(1) bindE_Inr ..
  then show ?thesis
    unfolding encryptPayload_def objectKey_def stream_cipher_def I_def[symmetric]
    by (simp add: slice_def d(2) length_process)
qed

theorem encryptObject_spec_witness:
  "length (replicate 16 (0::byte)) \<le> 16
   \<and> encryptObject [1, 2, 3, 4, 5] 7 0 (replicate 16 0)
       = Inr (encryptPayload [1, 2, 3, 4, 5] (replicate 16 0) 7 0)
   \<and> length (objectKey (replicate 16 0) 7 0) = 16"
  using encryptObject_spec[of "replicate 16 0" "[1, 2, 3, 4, 5]" 7 0] by simp

end
